theory Spec2Isabelle
  imports Complex_Main "HOL-Library.Log_Nat"
begin

section \<open>Python floats\<close>

text \<open>
  The add-on computes frame numbers with Python floats (IEEE 754 binary64) and truncates
  them with \<open>int()\<close>. A finite double is modelled by the rational number it denotes;
  every arithmetic operation computes the exact rational result and rounds it to the
  nearest double, ties to even (\<open>rnd\<close>). The significand has 53 bits and the exponent
  of the last place is never below \<open>-1074\<close> (subnormal numbers). Overflow to infinity
  is outside the model: frames are host integers of 32 bits and time fractions, speeds
  and offsets are small, so no intermediate result comes near \<open>2 ^ 1024\<close>.
\<close>

type_synonym pyfloat = rat

text \<open>
  The one Python exception on the paths modelled here is \<open>ZeroDivisionError\<close>, raised by a
  division by a zero speed.
\<close>

datatype py_error = ZeroDivisionError

definition round_half_even :: "rat \<Rightarrow> int" where
  "round_half_even q =
     (let f = \<lfloor>q\<rfloor>; r = q - of_int f
      in if r < 1 / 2 then f
         else if 1 / 2 < r then f + 1
         else if even f then f else f + 1)"

definition binade :: "rat \<Rightarrow> int" where
  \<comment> \<open>for \<open>0 < q\<close>: the exponent \<open>e\<close> with \<open>2 powi e \<le> q < 2 powi (e + 1)\<close>\<close>
  "binade q = (if 1 \<le> q then bitlen \<lfloor>q\<rfloor> - 1 else - bitlen (\<lceil>1 / q\<rceil> - 1))"

definition rnd_mag :: "rat \<Rightarrow> rat" where
  "rnd_mag q =
     (let u = 2 powi (max (binade q) (- 1022) - 52)
      in of_int (round_half_even (q / u)) * u)"

definition rnd :: "rat \<Rightarrow> pyfloat" where
  "rnd q = (if q = 0 then 0 else if 0 < q then rnd_mag q else - rnd_mag (- q))"

definition is_double :: "rat \<Rightarrow> bool" where
  "is_double x = (rnd x = x)"

definition float_of_int :: "int \<Rightarrow> pyfloat" where
  "float_of_int i = rnd (of_int i)"

definition fadd :: "pyfloat \<Rightarrow> pyfloat \<Rightarrow> pyfloat" where
  "fadd x y = rnd (x + y)"

definition fmul :: "pyfloat \<Rightarrow> pyfloat \<Rightarrow> pyfloat" where
  "fmul x y = rnd (x * y)"

definition fdiv :: "pyfloat \<Rightarrow> pyfloat \<Rightarrow> py_error + pyfloat" where
  "fdiv x y = (if y = 0 then Inl ZeroDivisionError else Inr (rnd (x / y)))"

definition py_int :: "pyfloat \<Rightarrow> int" where
  \<comment> \<open>\<open>int(x)\<close> truncates toward zero\<close>
  "py_int x = (if 0 \<le> x then \<lfloor>x\<rfloor> else \<lceil>x\<rceil>)"

definition py_round :: "pyfloat \<Rightarrow> int" where
  \<comment> \<open>\<open>round(x)\<close>: the nearest integer, ties to even\<close>
  "py_round x = (if 0 \<le> x then round_half_even x else - round_half_even (- x))"

section \<open>Animation presets (animation_presets.py)\<close>

text \<open>
  A keyframe is one call \<open>utils.insert_keyframe(obj, data_path, frame, value)\<close>; a handler
  is modelled by the list of its calls, in the order it makes them. The host object
  contributes its type, location and rotation; \<open>math.radians\<close> is a parameter.
\<close>

type_synonym vec3 = "pyfloat \<times> pyfloat \<times> pyfloat"

type_synonym keyframe = "string \<times> int \<times> vec3"

record host_object =
  obj_type :: string
  location :: vec3
  rotation_euler :: vec3

definition kf_frame :: "keyframe \<Rightarrow> int" where
  "kf_frame k = fst (snd k)"

definition actual_duration :: "pyfloat \<Rightarrow> py_error + int" where
  \<comment> \<open>\<open>base_duration = 30; actual_duration = int(base_duration / speed)\<close>\<close>
  "actual_duration speed =
     (case fdiv (float_of_int 30) speed of
        Inl e \<Rightarrow> Inl e
      | Inr q \<Rightarrow> Inr (py_int q))"

definition execute_frame_range :: "int \<Rightarrow> pyfloat \<Rightarrow> py_error + (int \<times> int)" where
  \<comment> \<open>\<open>ANIM_OT_add_preset.execute\<close>: the \<open>(start_frame, end_frame)\<close> handed to the handler\<close>
  "execute_frame_range frame_current speed =
     (case actual_duration speed of
        Inl e \<Rightarrow> Inl e
      | Inr d \<Rightarrow> Inr (frame_current, frame_current + d))"

definition frame_at :: "int \<Rightarrow> int \<Rightarrow> pyfloat \<Rightarrow> int" where
  \<comment> \<open>\<open>start_frame + int(duration * time_pct)\<close>\<close>
  "frame_at start_frame duration time_pct =
     start_frame + py_int (fmul (float_of_int duration) time_pct)"

definition keyframe_frames :: "int \<Rightarrow> int \<Rightarrow> (pyfloat \<times> 'p) list \<Rightarrow> (int \<times> 'p) list" where
  \<comment> \<open>the loop \<open>for time_pct, ... in keyframes\<close> shared by the handlers: the frame of each row\<close>
  "keyframe_frames start_frame duration keyframes =
     map (\<lambda>(time_pct, p). (frame_at start_frame duration time_pct, p)) keyframes"

definition keyframe_loop ::
  "(int \<Rightarrow> 'p \<Rightarrow> 'e list) \<Rightarrow> int \<Rightarrow> int \<Rightarrow> (pyfloat \<times> 'p) list \<Rightarrow> 'e list" where
  \<comment> \<open>the same loop with its body: \<open>emit frame row\<close> are the keyframes inserted for one row\<close>
  "keyframe_loop emit start_frame duration keyframes =
     concat (map (\<lambda>(frame, p). emit frame p) (keyframe_frames start_frame duration keyframes))"

definition apply_popup_scale :: "int \<Rightarrow> int \<Rightarrow> keyframe list" where
  "apply_popup_scale start_frame end_frame =
     (let duration = end_frame - start_frame;
          frame1 = start_frame;
          frame2 = start_frame + py_int (fmul (float_of_int duration) (rnd (4 / 10)));
          frame3 = start_frame + py_int (fmul (float_of_int duration) (rnd (7 / 10)));
          frame4 = end_frame
      in [(''scale'', frame1, (0, 0, 0)),
          (''scale'', frame2, (rnd (12 / 10), rnd (12 / 10), rnd (12 / 10))),
          (''scale'', frame3, (rnd (9 / 10), rnd (9 / 10), rnd (9 / 10))),
          (''scale'', frame4, (1, 1, 1))])"

definition bouncy_reveal_keyframes :: "(pyfloat \<times> vec3 \<times> vec3) list" where
  "bouncy_reveal_keyframes =
     [(rnd 0, (rnd 0, rnd 0, rnd 0), (0, 0, 0)),
      (rnd (3 / 10), (rnd (13 / 10), rnd (13 / 10), rnd (13 / 10)), (0, 0, 15)),
      (rnd (5 / 10), (rnd (7 / 10), rnd (7 / 10), rnd (7 / 10)), (0, 0, - 10)),
      (rnd (7 / 10), (rnd (11 / 10), rnd (11 / 10), rnd (11 / 10)), (0, 0, 5)),
      (rnd (85 / 100), (rnd (9 / 10), rnd (9 / 10), rnd (9 / 10)), (0, 0, - 2)),
      (rnd 1, (rnd 1, rnd 1, rnd 1), (0, 0, 0))]"

definition emit_scale_rot ::
  "(pyfloat \<Rightarrow> pyfloat) \<Rightarrow> vec3 \<Rightarrow> int \<Rightarrow> vec3 \<times> vec3 \<Rightarrow> keyframe list" where
  \<comment> \<open>body of the loop of \<open>apply_bouncy_reveal\<close>\<close>
  "emit_scale_rot radians orig_rot frame row =
     (case row of (scale, rot_offset) \<Rightarrow>
        (let rot = (fst orig_rot, fst (snd orig_rot),
                    fadd (snd (snd orig_rot)) (radians (snd (snd rot_offset))))
         in [(''scale'', frame, scale), (''rotation_euler'', frame, rot)]))"

definition apply_bouncy_reveal ::
  "(pyfloat \<Rightarrow> pyfloat) \<Rightarrow> host_object \<Rightarrow> int \<Rightarrow> int \<Rightarrow> keyframe list" where
  "apply_bouncy_reveal radians obj start_frame end_frame =
     (let duration = end_frame - start_frame;
          orig_rot = rotation_euler obj
      in keyframe_loop (emit_scale_rot radians orig_rot)
           start_frame duration bouncy_reveal_keyframes)"

definition emit_scale_loc_rot ::
  "(pyfloat \<Rightarrow> pyfloat) \<Rightarrow> host_object \<Rightarrow> int \<Rightarrow> vec3 \<times> pyfloat \<times> pyfloat \<Rightarrow> keyframe list"
  where
  \<comment> \<open>body of the loops of \<open>apply_typewriter\<close> and \<open>apply_stagger\<close>\<close>
  "emit_scale_loc_rot radians obj frame row =
     (case row of (scale, x_offset, rot_z) \<Rightarrow>
        (let pos = (fadd (fst (location obj)) x_offset,
                    fst (snd (location obj)), snd (snd (location obj)));
             rot = (fst (rotation_euler obj), fst (snd (rotation_euler obj)), radians rot_z)
         in [(''scale'', frame, scale), (''location'', frame, pos),
             (''rotation_euler'', frame, rot)]))"

definition stagger_copy ::
  "(int \<Rightarrow> 'p \<Rightarrow> 'e list) \<Rightarrow> int \<Rightarrow> int \<Rightarrow> pyfloat \<Rightarrow> (pyfloat \<times> 'p) list \<Rightarrow> nat \<Rightarrow> 'e list"
  where
  \<comment> \<open>one pass of the loop \<open>for i in range(num_copies)\<close> of \<open>apply_stagger\<close>;
      \<open>delay\<close> is the constant \<open>0.2\<close> there\<close>
  "stagger_copy emit start_frame duration delay base_keyframes i =
     (let delay_pct = fmul delay (float_of_int (int i))
      in concat (map (\<lambda>(time_pct, p).
           (let adjusted_time = fadd time_pct delay_pct
            in if adjusted_time \<le> 1
               then emit (start_frame + py_int (fmul (float_of_int duration) adjusted_time)) p
               else [])) base_keyframes))"

definition stagger_base_keyframes :: "(pyfloat \<times> vec3 \<times> pyfloat \<times> pyfloat) list" where
  "stagger_base_keyframes =
     [(rnd 0, (rnd 0, rnd 0, rnd 0), rnd (- 3 / 10), 10),
      (rnd (3 / 10), (rnd (12 / 10), rnd (12 / 10), rnd (8 / 10)), rnd (- 1 / 10), - 5),
      (rnd (5 / 10), (rnd (9 / 10), rnd (9 / 10), rnd (11 / 10)), rnd 0, 2),
      (rnd (7 / 10), (rnd (11 / 10), rnd (11 / 10), rnd (9 / 10)), rnd 0, - 1),
      (rnd 1, (rnd 1, rnd 1, rnd 1), rnd 0, 0)]"

definition apply_stagger ::
  "(pyfloat \<Rightarrow> pyfloat) \<Rightarrow> host_object \<Rightarrow> int \<Rightarrow> int \<Rightarrow> keyframe list list" where
  \<comment> \<open>the keyframes of each copy, in the order the copies are created\<close>
  "apply_stagger radians obj start_frame end_frame =
     (if obj_type obj = ''MESH''
      then (let duration = end_frame - start_frame; num_copies = 3
            in map (stagger_copy (emit_scale_loc_rot radians obj) start_frame duration
                      (rnd (2 / 10)) stagger_base_keyframes) [0..<num_copies])
      else [])"

section \<open>Curve animation (curve_animation.py)\<close>

text \<open>
  The operator animates the \<open>offset_factor\<close> of a follow-path constraint. A keyframe of that
  factor is a pair of its frame and the factor; \<open>apply_animation\<close> is modelled by the list
  of the keyframes it inserts, in order. The properties of the settings it reads form a
  record.
\<close>

datatype loop_type = REPEAT | PING_PONG | OFFSET

record settings =
  speed_factor :: pyfloat
  reverse_direction :: bool
  loop_animation :: bool
  loop_type :: loop_type
  loop_offset :: pyfloat

definition total_duration :: "int \<Rightarrow> settings \<Rightarrow> int" where
  "total_duration duration st =
     (if loop_animation st
      then (if loop_type st = PING_PONG then duration * 2
            else if loop_type st = OFFSET then duration * 4
            else duration)
      else duration)"

definition adjusted_duration :: "int \<Rightarrow> pyfloat \<Rightarrow> py_error + int" where
  \<comment> \<open>\<open>adjusted_duration = int(duration / settings.speed_factor)\<close>\<close>
  "adjusted_duration duration speed =
     (case fdiv (float_of_int duration) speed of
        Inl e \<Rightarrow> Inl e
      | Inr q \<Rightarrow> Inr (py_int q))"

definition create_ping_pong_animation ::
  "int \<Rightarrow> int \<Rightarrow> pyfloat \<Rightarrow> pyfloat \<Rightarrow> (int \<times> pyfloat) list" where
  "create_ping_pong_animation start_frame duration start_factor end_factor =
     (let mid_frame = start_frame + duration;
          end_frame = start_frame + duration * 2
      in [(mid_frame, end_factor), (end_frame, start_factor)])"

definition clamp01 :: "pyfloat \<Rightarrow> pyfloat" where
  "clamp01 factor = min (max factor 0) 1"

definition create_offset_animation ::
  "int \<Rightarrow> int \<Rightarrow> pyfloat \<Rightarrow> pyfloat \<Rightarrow> settings \<Rightarrow> (int \<times> pyfloat) list" where
  "create_offset_animation start_frame duration start_factor end_factor st =
     map (\<lambda>i. (let frame = start_frame + duration * i;
                    offset = fmul (float_of_int i) (loop_offset st);
                    factor = (if reverse_direction st then fadd start_factor offset
                              else fadd end_factor offset)
                in (frame, clamp01 factor))) [1, 2, 3]"

definition create_repeat_animation :: "int \<Rightarrow> int \<Rightarrow> pyfloat \<Rightarrow> (int \<times> pyfloat) list" where
  \<comment> \<open>one keyframe; the repetition is a cycles modifier of the host's curve\<close>
  "create_repeat_animation start_frame end_frame end_factor = [(end_frame, end_factor)]"

definition offset_factor_keyframes ::
  "int \<Rightarrow> int \<Rightarrow> pyfloat \<Rightarrow> pyfloat \<Rightarrow> settings \<Rightarrow> (int \<times> pyfloat) list" where
  \<comment> \<open>\<open>apply_animation\<close> from "Insert initial keyframe" on: the \<open>offset_factor\<close> keyframes
      inserted on the follow-path constraint, in order\<close>
  "offset_factor_keyframes start_frame duration start_factor end_factor st =
     (let end_frame = start_frame + duration
      in (start_frame, start_factor) #
         (if loop_animation st
          then (if loop_type st = PING_PONG
                then create_ping_pong_animation start_frame duration start_factor end_factor
                else if loop_type st = OFFSET
                then create_offset_animation start_frame duration start_factor end_factor st
                else create_repeat_animation start_frame end_frame end_factor)
          else [(end_frame, end_factor)]))"

definition apply_animation :: "int \<Rightarrow> pyfloat \<Rightarrow> settings \<Rightarrow> (int \<times> pyfloat) list" where
  "apply_animation duration time_offset st =
     (let start_frame = 1 + py_int (fmul time_offset (float_of_int duration));
          start_factor = (if reverse_direction st then 1 else 0);
          end_factor = (if reverse_direction st then 0 else 1)
      in offset_factor_keyframes start_frame duration start_factor end_factor st)"











definition relative_to :: "int \<Rightarrow> (int \<times> 'a) list \<Rightarrow> (int \<times> 'a) list" where
  \<comment> \<open>keyframes with their frames counted from \<open>start_frame\<close>\<close>
  "relative_to start_frame ks = map (\<lambda>(frame, x). (frame - start_frame, x)) ks"

section \<open>The specification's formulas\<close>

text \<open>
  Two formulas are written after the specification's words, to be compared with what the
  code computes: the effective duration as \<open>round(duration_frames / speed_factor)\<close>, and
  the points of the offset loop with every factor derived from the end factor.
\<close>

definition spec_effective_duration :: "int \<Rightarrow> pyfloat \<Rightarrow> int" where
  "spec_effective_duration duration_frames speed =
     py_round (rnd (of_int duration_frames / speed))"

definition spec_offset_points ::
  "pyfloat \<Rightarrow> pyfloat \<Rightarrow> int \<Rightarrow> pyfloat \<Rightarrow> (int \<times> pyfloat) list" where
  "spec_offset_points s e d offset_per_cycle =
     (0, s) # map (\<lambda>i. (i * d, clamp01 (fadd e (fmul (float_of_int i) offset_per_cycle))))
                [1, 2, 3]"

section \<open>Properties of rounding\<close>

lemma round_half_even_of_int: "round_half_even (of_int n) = n"
  by (simp add: round_half_even_def)

lemma round_half_even_mono:
  assumes "x \<le> y"
  shows "round_half_even x \<le> round_half_even y"
proof (cases "\<lfloor>x\<rfloor> = \<lfloor>y\<rfloor>")
  case True
  with assms show ?thesis
    by (auto simp: round_half_even_def Let_def)
next
  case False
  with assms have lt: "\<lfloor>x\<rfloor> < \<lfloor>y\<rfloor>"
    using floor_mono [of x y] by linarith
  have "round_half_even x \<le> \<lfloor>x\<rfloor> + 1"
    by (auto simp: round_half_even_def Let_def)
  moreover have "\<lfloor>y\<rfloor> \<le> round_half_even y"
    by (auto simp: round_half_even_def Let_def)
  ultimately show ?thesis using lt by linarith
qed

lemma round_half_even_ge: "of_int n \<le> x \<Longrightarrow> n \<le> round_half_even x"
  using round_half_even_mono [of "of_int n" x] by (simp add: round_half_even_of_int)

lemma round_half_even_le: "x \<le> of_int n \<Longrightarrow> round_half_even x \<le> n"
  using round_half_even_mono [of x "of_int n"] by (simp add: round_half_even_of_int)

lemma py_int_mono:
  assumes "x \<le> y"
  shows "py_int x \<le> py_int y"
proof (cases "0 \<le> x")
  case True
  with assms show ?thesis by (simp add: py_int_def floor_mono)
next
  case False
  show ?thesis
  proof (cases "0 \<le> y")
    case True
    have "\<lceil>x\<rceil> \<le> 0" using False by (simp add: ceiling_le_zero)
    moreover have "0 \<le> \<lfloor>y\<rfloor>" using True by simp
    ultimately have "\<lceil>x\<rceil> \<le> \<lfloor>y\<rfloor>" by linarith
    then show ?thesis using False True by (simp add: py_int_def)
  next
    case False
    with \<open>\<not> 0 \<le> x\<close> assms show ?thesis by (simp add: py_int_def ceiling_mono)
  qed
qed

lemma bitlen_ge_one: "0 < m \<Longrightarrow> 1 \<le> bitlen m"
  using bitlen_eq_zero_iff [of m] bitlen_nonneg [of m] by linarith

lemma bitlen_bounds_rat:
  assumes "0 < m"
  shows "(2::rat) ^ nat (bitlen m - 1) \<le> of_int m" and "of_int m < (2::rat) ^ nat (bitlen m)"
proof -
  from bitlen_bounds [OF assms]
  have a: "2 ^ nat (bitlen m - 1) \<le> m" and b: "m < 2 ^ nat (bitlen m)" by simp_all
  from a have "(of_int (2 ^ nat (bitlen m - 1)) :: rat) \<le> of_int m"
    by (simp only: of_int_le_iff)
  then show "(2::rat) ^ nat (bitlen m - 1) \<le> of_int m" by simp
  from b have "(of_int m :: rat) < of_int (2 ^ nat (bitlen m))"
    by (simp only: of_int_less_iff)
  then show "of_int m < (2::rat) ^ nat (bitlen m)" by simp
qed

lemma binade_ge_one:
  assumes "1 \<le> q"
  shows "2 powi binade q \<le> q" and "q < 2 powi (binade q + 1)"
proof -
  let ?m = "\<lfloor>q\<rfloor>"
  from assms have pos: "0 < ?m" by simp
  have n1: "1 \<le> bitlen ?m" using pos by (rule bitlen_ge_one)
  have b: "binade q = bitlen ?m - 1" using assms by (simp add: binade_def)
  have "(2::rat) ^ nat (bitlen ?m - 1) \<le> of_int ?m"
    using bitlen_bounds_rat(1) [OF pos] .
  also have "\<dots> \<le> q" by simp
  finally show "2 powi binade q \<le> q"
    using n1 by (simp add: b power_int_def)
  have "q < of_int ?m + 1" by linarith
  also have "\<dots> \<le> (2::rat) ^ nat (bitlen ?m)"
  proof -
    from bitlen_bounds [OF pos] have "?m + 1 \<le> 2 ^ nat (bitlen ?m)" by simp
    then have "(of_int (?m + 1) :: rat) \<le> of_int (2 ^ nat (bitlen ?m))"
      by (simp only: of_int_le_iff)
    then show ?thesis by simp
  qed
  finally show "q < 2 powi (binade q + 1)"
    using n1 by (simp add: b power_int_def)
qed

lemma binade_lt_one:
  assumes "0 < q" "q < 1"
  shows "2 powi binade q \<le> q" and "q < 2 powi (binade q + 1)"
proof -
  let ?m = "\<lceil>1 / q\<rceil> - 1"
  from assms have "1 < 1 / q" by simp
  then have "2 \<le> \<lceil>1 / q\<rceil>" by linarith
  then have pos: "0 < ?m" by simp
  have n1: "1 \<le> bitlen ?m" using pos by (rule bitlen_ge_one)
  have b: "binade q = - bitlen ?m" using assms by (simp add: binade_def)
  have up: "1 / q \<le> of_int ?m + 1" by simp
  have lo: "of_int ?m < 1 / q" by linarith
  have "1 / q \<le> (2::rat) ^ nat (bitlen ?m)"
  proof -
    from bitlen_bounds [OF pos] have "?m + 1 \<le> 2 ^ nat (bitlen ?m)" by simp
    then have "(of_int (?m + 1) :: rat) \<le> of_int (2 ^ nat (bitlen ?m))"
      by (simp only: of_int_le_iff)
    then have "of_int ?m + 1 \<le> (2::rat) ^ nat (bitlen ?m)" by simp
    with up show ?thesis by linarith
  qed
  then have "1 \<le> 2 ^ nat (bitlen ?m) * q"
    using assms(1) by (simp add: pos_divide_le_eq)
  then have "1 / 2 ^ nat (bitlen ?m) \<le> q"
    by (simp add: pos_divide_le_eq mult.commute)
  then show "2 powi binade q \<le> q"
    using n1 by (simp add: b power_int_def inverse_eq_divide power_one_over)
  have "(2::rat) ^ nat (bitlen ?m - 1) < 1 / q"
    using bitlen_bounds_rat(1) [OF pos] lo by linarith
  then have "2 ^ nat (bitlen ?m - 1) * q < 1"
    using assms(1) by (simp add: pos_less_divide_eq)
  then have "q < 1 / 2 ^ nat (bitlen ?m - 1)"
    by (simp add: pos_less_divide_eq mult.commute)
  moreover have "(2::rat) powi (- bitlen ?m + 1) = 1 / 2 ^ nat (bitlen ?m - 1)"
    using n1 by (cases "bitlen ?m = 1") (auto simp add: power_int_def inverse_eq_divide power_one_over)
  ultimately show "q < 2 powi (binade q + 1)"
    by (simp add: b)
qed

lemma binade_bounds:
  assumes "0 < q"
  shows "2 powi binade q \<le> q" and "q < 2 powi (binade q + 1)"
  using assms binade_ge_one [of q] binade_lt_one [of q]
  by (cases "1 \<le> q"; simp)+

lemma binade_unique:
  assumes "0 < q" "2 powi e \<le> q" "q < 2 powi (e + 1)"
  shows "binade q = e"
proof (rule ccontr)
  assume ne: "binade q \<noteq> e"
  show False
  proof (cases "binade q < e")
    case True
    then have "binade q + 1 \<le> e" by simp
    then have "(2::rat) powi (binade q + 1) \<le> 2 powi e"
      by (intro power_int_increasing) simp_all
    with binade_bounds(2) [OF assms(1)] assms(2) show False by linarith
  next
    case False
    with ne have "e + 1 \<le> binade q" by simp
    then have "(2::rat) powi (e + 1) \<le> 2 powi binade q"
      by (intro power_int_increasing) simp_all
    with binade_bounds(1) [OF assms(1)] assms(3) show False by linarith
  qed
qed

lemma binade_mono:
  assumes "0 < x" "x \<le> y"
  shows "binade x \<le> binade y"
proof (rule ccontr)
  assume "\<not> binade x \<le> binade y"
  then have "binade y + 1 \<le> binade x" by simp
  then have "(2::rat) powi (binade y + 1) \<le> 2 powi binade x"
    by (intro power_int_increasing) simp_all
  moreover have "0 < y" using assms by linarith
  ultimately show False
    using binade_bounds(1) [OF assms(1)] binade_bounds(2) [of y] assms(2) by linarith
qed

lemma two_powi_pos: "0 < (2::rat) powi k"
  by (simp add: zero_less_power_int)

lemma two_powi_quot: "(2::rat) powi a / 2 powi b = 2 powi (a - b)"
  by (simp add: power_int_diff)

lemma two_powi_add: "(2::rat) powi a * 2 powi b = 2 powi (a + b)"
  by (simp add: power_int_add)

lemma rnd_mag_nonneg:
  assumes "0 < q"
  shows "0 \<le> rnd_mag q"
proof -
  let ?u = "(2::rat) powi (max (binade q) (- 1022) - 52)"
  have u: "0 < ?u" by (rule two_powi_pos)
  with assms have "of_int 0 \<le> q / ?u" by simp
  then have "0 \<le> round_half_even (q / ?u)" by (rule round_half_even_ge)
  with u show ?thesis by (simp add: rnd_mag_def Let_def)
qed

lemma rnd_mag_le:
  assumes "0 < q"
  shows "rnd_mag q \<le> 2 powi (max (binade q) (- 1022) + 1)"
proof -
  let ?E = "max (binade q) (- 1022)"
  let ?u = "(2::rat) powi (?E - 52)"
  have u: "0 < ?u" by (rule two_powi_pos)
  have "q < 2 powi (binade q + 1)" using assms by (rule binade_bounds(2))
  also have "\<dots> \<le> 2 powi (?E + 1)" by (intro power_int_increasing) simp_all
  finally have "q / ?u \<le> 2 powi (?E + 1) / ?u"
    using u by (simp add: divide_right_mono)
  also have "\<dots> = 2 powi 53" by (simp add: two_powi_quot)
  also have "\<dots> = of_int (2 ^ 53)" by simp
  finally have "round_half_even (q / ?u) \<le> 2 ^ 53" by (rule round_half_even_le)
  then have "(of_int (round_half_even (q / ?u)) :: rat) \<le> of_int (2 ^ 53)"
    by (simp only: of_int_le_iff)
  then have "of_int (round_half_even (q / ?u)) * ?u \<le> of_int (2 ^ 53) * ?u"
    using u by (simp only: mult_le_cancel_right_pos)
  also have "of_int (2 ^ 53) * ?u = 2 powi 53 * ?u" by simp
  also have "\<dots> = 2 powi (53 + (?E - 52))" by (rule two_powi_add)
  also have "53 + (?E - 52) = ?E + 1" by simp
  finally show ?thesis by (simp add: rnd_mag_def Let_def)
qed

lemma rnd_mag_ge:
  assumes "0 < q" "- 1022 \<le> binade q"
  shows "2 powi binade q \<le> rnd_mag q"
proof -
  let ?E = "binade q"
  let ?u = "(2::rat) powi (?E - 52)"
  have E: "max (binade q) (- 1022) = ?E" using assms(2) by simp
  have u: "0 < ?u" by (rule two_powi_pos)
  have "2 powi ?E \<le> q" using assms(1) by (rule binade_bounds(1))
  then have "2 powi ?E / ?u \<le> q / ?u"
    using u by (simp add: divide_right_mono)
  moreover have "2 powi ?E / ?u = of_int (2 ^ 52)" by (simp add: two_powi_quot)
  ultimately have "of_int (2 ^ 52) \<le> q / ?u" by simp
  then have "2 ^ 52 \<le> round_half_even (q / ?u)" by (rule round_half_even_ge)
  then have "(of_int (2 ^ 52) :: rat) \<le> of_int (round_half_even (q / ?u))"
    by (simp only: of_int_le_iff)
  then have step: "of_int (2 ^ 52) * ?u \<le> of_int (round_half_even (q / ?u)) * ?u"
    using u by (simp only: mult_le_cancel_right_pos)
  have "2 powi ?E = 2 powi (52 + (?E - 52))" by simp
  also have "\<dots> = 2 powi 52 * ?u" by (rule two_powi_add [symmetric])
  also have "\<dots> = of_int (2 ^ 52) * ?u" by simp
  also note step
  finally show ?thesis unfolding rnd_mag_def Let_def E .
qed

lemma rnd_mag_mono:
  assumes "0 < x" "x \<le> y"
  shows "rnd_mag x \<le> rnd_mag y"
proof -
  let ?Ex = "max (binade x) (- 1022)"
  let ?Ey = "max (binade y) (- 1022)"
  have y: "0 < y" using assms by linarith
  have le: "?Ex \<le> ?Ey" using binade_mono [OF assms] by simp
  show ?thesis
  proof (cases "?Ex = ?Ey")
    case True
    let ?u = "(2::rat) powi (?Ey - 52)"
    have u: "0 < ?u" by (rule two_powi_pos)
    have "x / ?u \<le> y / ?u" using assms(2) u by (simp add: divide_right_mono)
    then have "round_half_even (x / ?u) \<le> round_half_even (y / ?u)"
      by (rule round_half_even_mono)
    then have "(of_int (round_half_even (x / ?u)) :: rat) \<le> of_int (round_half_even (y / ?u))"
      by (simp only: of_int_le_iff)
    then have "of_int (round_half_even (x / ?u)) * ?u \<le> of_int (round_half_even (y / ?u)) * ?u"
      using u by (simp only: mult_le_cancel_right_pos)
    then show ?thesis by (simp add: rnd_mag_def Let_def True)
  next
    case False
    from le False have lt: "?Ex < ?Ey" by (rule le_neq_trans)
    have Ey: "?Ey = binade y" using lt by (simp add: max_def split: if_splits)
    have ge: "- 1022 \<le> binade y" using lt by (simp add: max_def split: if_splits)
    have "rnd_mag x \<le> 2 powi (?Ex + 1)" using assms(1) by (rule rnd_mag_le)
    also have "\<dots> \<le> 2 powi ?Ey"
    proof (rule power_int_increasing)
      show "?Ex + 1 \<le> ?Ey" using lt by linarith
    qed simp
    also have "\<dots> = 2 powi binade y" by (simp only: Ey)
    also have "\<dots> \<le> rnd_mag y" using y ge by (rule rnd_mag_ge)
    finally show ?thesis .
  qed
qed

lemma rnd_mono:
  assumes "x \<le> y"
  shows "rnd x \<le> rnd y"
proof -
  consider "0 < x" | "x \<le> 0" "0 \<le> y" | "y < 0" by linarith
  then show ?thesis
  proof cases
    case 1
    with assms have "0 < y" by linarith
    with 1 assms show ?thesis by (simp add: rnd_def rnd_mag_mono)
  next
    case 2
    have "rnd x \<le> 0" using 2(1) rnd_mag_nonneg [of "- x"] by (auto simp: rnd_def)
    moreover have "0 \<le> rnd y" using 2(2) rnd_mag_nonneg [of y] by (auto simp: rnd_def)
    ultimately show ?thesis by linarith
  next
    case 3
    with assms have "x < 0" by linarith
    have "rnd_mag (- y) \<le> rnd_mag (- x)" using 3 assms by (intro rnd_mag_mono) simp_all
    with 3 \<open>x < 0\<close> show ?thesis by (simp add: rnd_def)
  qed
qed

lemma rnd_nonneg: "0 \<le> x \<Longrightarrow> 0 \<le> rnd x"
  using rnd_mono [of 0 x] by (simp add: rnd_def)

lemma rnd_mag_exact:
  assumes "0 < m" "m < 2 ^ 53" "- 1074 \<le> k"
  shows "rnd_mag (of_int m * 2 powi k) = of_int m * 2 powi k"
proof -
  let ?q = "of_int m * (2::rat) powi k"
  let ?E = "max (binade ?q) (- 1022)"
  let ?u = "(2::rat) powi (?E - 52)"
  have q: "0 < ?q" using assms(1) by (simp add: two_powi_pos)
  have u: "0 < ?u" by (rule two_powi_pos)
  have "binade ?q - 52 \<le> k"
  proof (rule ccontr)
    assume "\<not> binade ?q - 52 \<le> k"
    then have "k + 53 \<le> binade ?q" by simp
    then have "(2::rat) powi (k + 53) \<le> 2 powi binade ?q"
      by (intro power_int_increasing) simp_all
    also have "\<dots> \<le> ?q" using q by (rule binade_bounds(1))
    finally have "2 powi (k + 53) \<le> ?q" .
    moreover have "(2::rat) powi (k + 53) = 2 powi k * 2 ^ 53"
      by (simp add: power_int_add)
    ultimately have "(2::rat) ^ 53 * 2 powi k \<le> of_int m * 2 powi k" by (simp add: mult.commute)
    then have "(2::rat) ^ 53 \<le> of_int m"
      using two_powi_pos [of k] by (simp only: mult_le_cancel_right_pos)
    moreover have "(of_int m :: rat) < of_int (2 ^ 53)" using assms(2) by (simp only: of_int_less_iff)
    ultimately show False by simp
  qed
  with assms(3) have d: "0 \<le> k - (?E - 52)" by simp
  have "?q / ?u = of_int m * 2 powi (k - (?E - 52))"
    by (simp add: two_powi_quot [symmetric])
  also have "\<dots> = of_int m * 2 ^ nat (k - (?E - 52))"
    using d by (simp only: power_int_nonneg_exp)
  also have "\<dots> = of_int (m * 2 ^ nat (k - (?E - 52)))" by simp
  finally have "round_half_even (?q / ?u) = m * 2 ^ nat (k - (?E - 52))"
    by (simp only: round_half_even_of_int)
  then have "of_int (round_half_even (?q / ?u)) * ?u = of_int m * 2 ^ nat (k - (?E - 52)) * ?u"
    by simp
  also have "\<dots> = of_int m * (2 powi (k - (?E - 52)) * ?u)"
    using d by (simp only: power_int_nonneg_exp mult.assoc)
  also have "2 powi (k - (?E - 52)) * ?u = (2::rat) powi k"
    by (simp only: two_powi_add) simp
  finally show ?thesis by (simp add: rnd_mag_def Let_def)
qed

lemma rnd_exact:
  assumes "\<bar>m\<bar> < 2 ^ 53" "- 1074 \<le> k"
  shows "rnd (of_int m * 2 powi k) = of_int m * 2 powi k"
proof -
  consider "m = 0" | "0 < m" | "m < 0" by linarith
  then show ?thesis
  proof cases
    case 1
    then show ?thesis by (simp add: rnd_def)
  next
    case 2
    with assms have "m < 2 ^ 53" by simp
    with 2 assms(2) have "rnd_mag (of_int m * 2 powi k) = of_int m * 2 powi k"
      by (intro rnd_mag_exact)
    moreover have "0 < of_int m * (2::rat) powi k" using 2 by (simp add: two_powi_pos)
    ultimately show ?thesis by (simp add: rnd_def)
  next
    case 3
    with assms have "0 < - m" "- m < 2 ^ 53" by simp_all
    with assms(2) have "rnd_mag (of_int (- m) * 2 powi k) = of_int (- m) * 2 powi k"
      by (intro rnd_mag_exact)
    moreover have "of_int m * (2::rat) powi k < 0"
      using 3 by (simp add: two_powi_pos mult_less_0_iff)
    ultimately show ?thesis by (simp add: rnd_def)
  qed
qed

lemma rnd_of_int: "\<bar>m\<bar> < 2 ^ 53 \<Longrightarrow> rnd (of_int m) = of_int m"
  using rnd_exact [of m 0] by simp

lemma rnd_half_of_int: "\<bar>m\<bar> < 2 ^ 53 \<Longrightarrow> rnd (of_int m / 2) = of_int m / 2"
  using rnd_exact [of m "- 1"] by (simp add: power_int_minus_divide)

lemma round_half_even_near:
  assumes "\<bar>q - of_int n\<bar> < 1 / 2"
  shows "round_half_even q = n"
proof (cases "of_int n \<le> q")
  case True
  have "q < of_int n + 1" using assms by linarith
  with True have "\<lfloor>q\<rfloor> = n" by (rule floor_unique)
  with assms True show ?thesis by (simp add: round_half_even_def Let_def)
next
  case False
  have e: "(of_int (n - 1) :: rat) = of_int n - 1" by simp
  have "of_int (n - 1) \<le> q" unfolding e using assms by linarith
  moreover have "q < of_int (n - 1) + 1" unfolding e using False by linarith
  ultimately have f: "\<lfloor>q\<rfloor> = n - 1" by (rule floor_unique)
  have "1 / 2 < q - of_int (n - 1)" unfolding e using assms False by linarith
  then show ?thesis using f by (simp add: round_half_even_def Let_def)
qed

lemma rnd_eval:
  assumes "0 < q" "2 powi e \<le> q" "q < 2 powi (e + 1)" "- 1022 \<le> e"
    and "\<bar>q / 2 powi (e - 52) - of_int n\<bar> < 1 / 2"
  shows "rnd q = of_int n * 2 powi (e - 52)"
proof -
  have "binade q = e" using assms(1-3) by (rule binade_unique)
  with assms(4) have "max (binade q) (- 1022) = e" by simp
  then show ?thesis
    using assms(1) round_half_even_near [OF assms(5)] by (simp add: rnd_def rnd_mag_def Let_def)
qed

lemma rnd_zero: "rnd 0 = 0"
  by (simp add: rnd_def)

lemma rnd_one: "rnd 1 = 1"
  using rnd_of_int [of 1] by simp

lemma rnd_le_one: "q \<le> 1 \<Longrightarrow> rnd q \<le> 1"
  using rnd_mono [of q 1] by (simp add: rnd_one)

lemma round_half_even_scaled:
  assumes "0 < q"
  shows "0 \<le> round_half_even (q / 2 powi (max (binade q) (- 1022) - 52))"
    and "round_half_even (q / 2 powi (max (binade q) (- 1022) - 52)) \<le> 2 ^ 53"
proof -
  let ?E = "max (binade q) (- 1022)"
  let ?u = "(2::rat) powi (?E - 52)"
  have u: "0 < ?u" by (rule two_powi_pos)
  with assms have "of_int 0 \<le> q / ?u" by simp
  then show "0 \<le> round_half_even (q / ?u)" by (rule round_half_even_ge)
  have "q < 2 powi (binade q + 1)" using assms by (rule binade_bounds(2))
  also have "\<dots> \<le> 2 powi (?E + 1)" by (intro power_int_increasing) simp_all
  finally have "q / ?u \<le> 2 powi (?E + 1) / ?u"
    using u by (simp add: divide_right_mono)
  also have "\<dots> = 2 powi 53" by (simp add: two_powi_quot)
  also have "\<dots> = of_int (2 ^ 53)" by simp
  finally show "round_half_even (q / ?u) \<le> 2 ^ 53" by (rule round_half_even_le)
qed

lemma rnd_mag_idem:
  assumes "0 < q"
  shows "rnd (rnd_mag q) = rnd_mag q"
proof -
  let ?k = "max (binade q) (- 1022) - 52"
  let ?n = "round_half_even (q / 2 powi ?k)"
  have k: "- 1074 \<le> ?k" by simp
  have v: "rnd_mag q = of_int ?n * 2 powi ?k" by (simp add: rnd_mag_def Let_def)
  have n: "0 \<le> ?n" "?n \<le> 2 ^ 53" using round_half_even_scaled [OF assms] by simp_all
  show ?thesis
  proof (cases "?n = 2 ^ 53")
    case True
    have "of_int ?n * (2::rat) powi ?k = 2 powi 53 * 2 powi ?k" by (simp add: True)
    also have "\<dots> = 2 powi (53 + ?k)" by (rule two_powi_add)
    finally have w: "rnd_mag q = of_int 1 * 2 powi (53 + ?k)" by (simp only: v of_int_1 mult_1)
    have "rnd (of_int 1 * 2 powi (53 + ?k)) = of_int 1 * 2 powi (53 + ?k)"
      by (rule rnd_exact) simp_all
    then show ?thesis by (simp only: w)
  next
    case False
    with n have "\<bar>?n\<bar> < 2 ^ 53" by simp
    then have "rnd (of_int ?n * 2 powi ?k) = of_int ?n * 2 powi ?k"
      using k by (rule rnd_exact)
    then show ?thesis by (simp only: v)
  qed
qed

lemma rnd_neg: "rnd (- q) = - rnd q"
  by (simp add: rnd_def)

lemma rnd_idem: "rnd (rnd q) = rnd q"
proof -
  consider "q = 0" | "0 < q" | "q < 0" by linarith
  then show ?thesis
  proof cases
    case 1
    then show ?thesis by (simp add: rnd_zero)
  next
    case 2
    then have "rnd q = rnd_mag q" by (simp add: rnd_def)
    then show ?thesis using rnd_mag_idem [OF 2] by simp
  next
    case 3
    then have "rnd q = - rnd_mag (- q)" by (simp add: rnd_def)
    moreover have "rnd (- rnd_mag (- q)) = - rnd_mag (- q)"
      using 3 by (simp add: rnd_neg rnd_mag_idem)
    ultimately show ?thesis by simp
  qed
qed

lemma is_double_rnd: "is_double (rnd q)"
  by (simp add: is_double_def rnd_idem)

lemma float_of_int_exact: "\<bar>m\<bar> < 2 ^ 53 \<Longrightarrow> float_of_int m = of_int m"
  by (simp add: float_of_int_def rnd_of_int)

lemma float_of_int_nonneg: "0 \<le> d \<Longrightarrow> 0 \<le> float_of_int d"
  by (simp add: float_of_int_def rnd_nonneg)


lemma py_int_nonneg: "0 \<le> x \<Longrightarrow> py_int x = \<lfloor>x\<rfloor>"
  by (simp add: py_int_def)

lemma round_half_even_tie:
  assumes "q = of_int f + 1 / 2"
  shows "round_half_even q = (if even f then f else f + 1)"
proof -
  have "of_int f \<le> q" "q < of_int f + 1" using assms by simp_all
  then have "\<lfloor>q\<rfloor> = f" by (rule floor_unique)
  with assms show ?thesis by (simp add: round_half_even_def Let_def)
qed

lemma py_int_eqI:
  assumes "0 \<le> x" "of_int n \<le> x" "x < of_int n + 1"
  shows "py_int x = n"
proof -
  have "\<lfloor>x\<rfloor> = n" using assms(2,3) by (rule floor_unique)
  with assms(1) show ?thesis by (simp add: py_int_def)
qed

lemma fmul_nonneg: "0 \<le> x \<Longrightarrow> 0 \<le> y \<Longrightarrow> 0 \<le> fmul x y"
  by (simp add: fmul_def rnd_nonneg)

lemma fadd_zero_right: "is_double x \<Longrightarrow> fadd x 0 = x"
  by (simp add: fadd_def is_double_def)

lemma fmul_zero_right: "fmul x (float_of_int 0) = 0"
  by (simp add: fmul_def float_of_int_def rnd_zero)

lemma fmul_zero_left: "fmul 0 x = 0"
  by (simp add: fmul_def rnd_zero)

lemma clamp01_range: "0 \<le> clamp01 x \<and> clamp01 x \<le> 1"
  by (simp add: clamp01_def)

lemma clamp01_above_one:
  assumes "0 \<le> x"
  shows "clamp01 (fadd 1 x) = 1"
proof -
  have "rnd 1 \<le> rnd (1 + x)" using assms by (intro rnd_mono) simp
  then have "1 \<le> fadd 1 x" by (simp add: fadd_def rnd_one)
  then show ?thesis by (simp add: clamp01_def)
qed

section \<open>Values of the literals and products the handlers use\<close>

lemma lit_01: "rnd (1 / 10) = 3602879701896397 / 36028797018963968"
  using rnd_eval [of "1 / 10" "- 4" 7205759403792794] by simp

lemma lit_02: "rnd (2 / 10) = 3602879701896397 / 18014398509481984"
  using rnd_eval [of "2 / 10" "- 3" 7205759403792794] by simp

lemma lit_04: "rnd (4 / 10) = 3602879701896397 / 9007199254740992"
  using rnd_eval [of "4 / 10" "- 2" 7205759403792794] by simp

lemma lit_07: "rnd (7 / 10) = 3152519739159347 / 4503599627370496"
  using rnd_eval [of "7 / 10" "- 1" 6305039478318694] by simp

lemma lit_08: "rnd (8 / 10) = 3602879701896397 / 4503599627370496"
  using rnd_eval [of "8 / 10" "- 1" 7205759403792794] by simp

lemma lit_09: "rnd (9 / 10) = 8106479329266893 / 9007199254740992"
  using rnd_eval [of "9 / 10" "- 1" 8106479329266893] by simp

lemma lit_05: "rnd (5 / 10) = 1 / 2"
  using rnd_exact [of 1 "- 1"] by (simp add: power_int_minus_divide)

lemma float_of_int_30: "float_of_int 30 = 30"
  using float_of_int_exact [of 30] by simp

lemma float_of_int_1: "float_of_int 1 = 1"
  using float_of_int_exact [of 1] by simp

lemma mul_30_04: "fmul 30 (3602879701896397 / 9007199254740992) = 12"
  using rnd_eval [of "30 * (3602879701896397 / 9007199254740992)" 3 6755399441055744]
  by (simp add: fmul_def)

lemma mul_30_07: "fmul 30 (3152519739159347 / 4503599627370496) = 21"
  using rnd_eval [of "30 * (3152519739159347 / 4503599627370496)" 4 5910974510923776]
  by (simp add: fmul_def)

lemma mul_30_08: "fmul 30 (3602879701896397 / 4503599627370496) = 24"
  using rnd_eval [of "30 * (3602879701896397 / 4503599627370496)" 4 6755399441055744]
  by (simp add: fmul_def)

lemma mul_30_09: "fmul 30 (8106479329266893 / 9007199254740992) = 27"
  using rnd_eval [of "30 * (8106479329266893 / 9007199254740992)" 4 7599824371187712]
  by (simp add: fmul_def)

lemma mul_30_1: "fmul 30 1 = 30"
  using rnd_of_int [of 30] by (simp add: fmul_def)

lemma mul_30_0: "fmul 30 0 = 0"
  by (simp add: fmul_def rnd_zero)

lemma mul_30_05: "fmul 30 (1 / 2) = 15"
  using rnd_of_int [of 15] by (simp add: fmul_def)

lemma add_08_02:
  "fadd (3602879701896397 / 4503599627370496) (3602879701896397 / 18014398509481984) = 1"
  using rnd_eval [of "3602879701896397 / 4503599627370496 + 3602879701896397 / 18014398509481984"
      0 4503599627370496]
  by (simp add: fadd_def)

lemma add_09_02:
  "fadd (8106479329266893 / 9007199254740992) (3602879701896397 / 18014398509481984)
     = 2476979795053773 / 2251799813685248"
  using rnd_eval [of "8106479329266893 / 9007199254740992 + 3602879701896397 / 18014398509481984"
      0 4953959590107546]
  by (simp add: fadd_def)

lemma div_30_35: "rnd (30 / (7 / 2)) = 4825285315039817 / 562949953421312"
  using rnd_eval [of "30 / (7 / 2)" 3 4825285315039817] by simp

lemma frame_04: "py_int (fmul (float_of_int 30) (rnd (4 / 10))) = 12"
  by (simp only: float_of_int_30 lit_04 mul_30_04) (simp add: py_int_def)

lemma frame_07: "py_int (fmul (float_of_int 30) (rnd (7 / 10))) = 21"
  by (simp only: float_of_int_30 lit_07 mul_30_07) (simp add: py_int_def)

section \<open>Effective duration\<close>

lemma adjusted_duration_floor:
  assumes "0 < d" "d < 2 ^ 53" "0 < s"
  shows "adjusted_duration d s = Inr \<lfloor>rnd (of_int d / s)\<rfloor>"
proof -
  have "float_of_int d = of_int d" using assms by (simp add: float_of_int_exact)
  moreover have "0 \<le> rnd (of_int d / s)" using assms by (intro rnd_nonneg) simp
  ultimately show ?thesis using assms(3)
    by (simp add: adjusted_duration_def fdiv_def py_int_nonneg)
qed

lemma adjusted_duration_half:
  assumes "0 < d" "d < 2 ^ 53"
  shows "adjusted_duration d 2 = Inr (d div 2)"
proof -
  have r: "rnd (of_int d / 2) = of_int d / 2" using assms by (intro rnd_half_of_int) simp
  have "\<lfloor>(of_int d :: rat) / of_int 2\<rfloor> = d div 2" by (rule floor_divide_of_int_eq)
  then have f: "\<lfloor>(of_int d :: rat) / 2\<rfloor> = d div 2" by simp
  have "adjusted_duration d 2 = Inr \<lfloor>rnd (of_int d / 2)\<rfloor>"
    using adjusted_duration_floor [OF assms, of 2] by simp
  then show ?thesis by (simp only: r f)
qed

lemma adjusted_duration_one:
  assumes "0 < d" "d < 2 ^ 53"
  shows "adjusted_duration d 1 = Inr d"
  using adjusted_duration_floor [OF assms, of 1] assms by (simp add: rnd_of_int)

lemma actual_duration_adjusted: "actual_duration s = adjusted_duration 30 s"
  by (simp add: actual_duration_def adjusted_duration_def)

lemma execute_frame_range_1_1: "execute_frame_range 1 1 = Inr (1, 31)"
  using adjusted_duration_one [of 30]
  by (simp add: execute_frame_range_def actual_duration_adjusted)

text \<open>
  C1 (as stated). The claim reads the effective duration as the quotient rounded to the
  nearest integer. At speed 3.5 the preset operator computes \<open>int(30 / 3.5) = 8\<close> where
  rounding gives 9, and the curve operator at duration 15 and speed 2.0 computes
  \<open>int(7.5) = 7\<close> where rounding gives 8.
\<close>

theorem effective_duration_rounded_counterexample:
  "actual_duration (7 / 2) = Inr 8 \<and> spec_effective_duration 30 (7 / 2) = 9 \<and>
   adjusted_duration 15 2 = Inr 7 \<and> spec_effective_duration 15 2 = 8"
proof -
  have "py_int (4825285315039817 / 562949953421312) = 8"
    by (rule py_int_eqI) simp_all
  then have a: "actual_duration (7 / 2) = Inr 8"
    by (simp add: actual_duration_def fdiv_def float_of_int_30 div_30_35
        del: divide_divide_eq_right)
  have "round_half_even (4825285315039817 / 562949953421312) = 9"
    by (rule round_half_even_near) simp
  then have b: "spec_effective_duration 30 (7 / 2) = 9"
    by (simp add: spec_effective_duration_def div_30_35 py_round_def
        del: divide_divide_eq_right)
  have c: "adjusted_duration 15 2 = Inr 7"
    using adjusted_duration_half [of 15] by simp
  have d: "spec_effective_duration 15 2 = 8"
  proof -
    have "rnd (of_int 15 / 2) = of_int 15 / 2" by (rule rnd_half_of_int) simp
    moreover have "round_half_even (of_int 15 / 2) = 8"
      using round_half_even_tie [of "of_int 15 / 2" 7] by simp
    moreover have "(0::rat) \<le> of_int 15 / 2" by simp
    ultimately show ?thesis
      unfolding spec_effective_duration_def py_round_def by (simp only: if_True)
  qed
  from a b c d show ?thesis by (simp only: simp_thms)
qed

text \<open>
  C1 (amended). For a duration \<open>d\<close> with \<open>0 < d < 2 ^ 53\<close> and a speed factor
  \<open>s > 0\<close>, the effective duration is the double-precision quotient \<open>d / s\<close> truncated
  to an integer (rounded down, not to nearest); the preset operator does the same with
  the base duration 30. With speed factor 2.0 that is \<open>d div 2\<close>, and with 1.0 it is \<open>d\<close>.
\<close>

theorem effective_duration_truncates:
  assumes "0 < d" "d < 2 ^ 53" "0 < s"
  shows "adjusted_duration d s = Inr \<lfloor>rnd (of_int d / s)\<rfloor> \<and>
         actual_duration s = Inr \<lfloor>rnd (30 / s)\<rfloor> \<and>
         adjusted_duration d 2 = Inr (d div 2) \<and>
         adjusted_duration d 1 = Inr d"
proof -
  have "actual_duration s = Inr \<lfloor>rnd (30 / s)\<rfloor>"
    using adjusted_duration_floor [of 30 s] assms(3) by (simp add: actual_duration_adjusted)
  then show ?thesis
    using adjusted_duration_floor [OF assms] adjusted_duration_half [OF assms(1,2)]
      adjusted_duration_one [OF assms(1,2)] by simp
qed

theorem effective_duration_truncates_witness:
  "adjusted_duration 15 (7 / 2) = Inr \<lfloor>rnd (of_int 15 / (7 / 2))\<rfloor> \<and>
   actual_duration (7 / 2) = Inr \<lfloor>rnd (30 / (7 / 2))\<rfloor> \<and>
   adjusted_duration 15 2 = Inr (15 div 2) \<and>
   adjusted_duration 15 1 = Inr 15"
  using effective_duration_truncates [of 15 "7 / 2"] by simp

section \<open>The pop-up scale scenario\<close>

text \<open>
  C2. At start frame 1 and speed 1.0 the frame range is (1, 31), and the pop-up scale
  handler inserts exactly four scale keyframes, at frames 1, 13, 22 and 31, carrying
  (0, 0, 0), (1.2, 1.2, 1.2), (0.9, 0.9, 0.9) and (1, 1, 1) in that order; each frame is
  the start frame plus the floor of the duration times the time fraction.
\<close>

theorem popup_scale_scenario:
  "execute_frame_range 1 1 = Inr (1, 31) \<and>
   apply_popup_scale 1 31 =
     [(''scale'', 1, (0, 0, 0)),
      (''scale'', 13, (rnd (12 / 10), rnd (12 / 10), rnd (12 / 10))),
      (''scale'', 22, (rnd (9 / 10), rnd (9 / 10), rnd (9 / 10))),
      (''scale'', 31, (1, 1, 1))] \<and>
   map kf_frame (apply_popup_scale 1 31) =
     map (\<lambda>t. 1 + \<lfloor>fmul (float_of_int 30) t\<rfloor>) [rnd 0, rnd (4 / 10), rnd (7 / 10), rnd 1]"
proof -
  have d: "(31::int) - 1 = 30" by simp
  have p: "apply_popup_scale 1 31 =
     [(''scale'', 1, (0, 0, 0)),
      (''scale'', 13, (rnd (12 / 10), rnd (12 / 10), rnd (12 / 10))),
      (''scale'', 22, (rnd (9 / 10), rnd (9 / 10), rnd (9 / 10))),
      (''scale'', 31, (1, 1, 1))]"
    unfolding apply_popup_scale_def Let_def
    by (simp only: d frame_04 frame_07) simp
  have f: "map (\<lambda>t. 1 + \<lfloor>fmul (float_of_int 30) t\<rfloor>) [rnd 0, rnd (4 / 10), rnd (7 / 10), rnd 1]
      = [1, 13, 22, 31]"
    by (simp only: list.map float_of_int_30 rnd_zero rnd_one lit_04 lit_07
        mul_30_0 mul_30_04 mul_30_07 mul_30_1) simp
  have "map kf_frame (apply_popup_scale 1 31) = [1, 13, 22, 31]"
    by (simp only: p) (simp add: kf_frame_def)
  with p f execute_frame_range_1_1 show ?thesis by (simp only: simp_thms)
qed

section \<open>Loop totals and the ping-pong loop\<close>

text \<open>
  C3. The total duration of a looping curve animation is the base duration for the
  repeat loop, twice the base duration for ping-pong and four times for the offset loop;
  for a base duration of 30 frames that is 30, 60 and 120.
\<close>

theorem total_duration_by_policy:
  "total_duration d (st\<lparr>loop_animation := True, loop_type := REPEAT\<rparr>) = d \<and>
   total_duration d (st\<lparr>loop_animation := True, loop_type := PING_PONG\<rparr>) = 2 * d \<and>
   total_duration d (st\<lparr>loop_animation := True, loop_type := OFFSET\<rparr>) = 4 * d \<and>
   total_duration 30 (st\<lparr>loop_animation := True, loop_type := REPEAT\<rparr>) = 30 \<and>
   total_duration 30 (st\<lparr>loop_animation := True, loop_type := PING_PONG\<rparr>) = 60 \<and>
   total_duration 30 (st\<lparr>loop_animation := True, loop_type := OFFSET\<rparr>) = 120"
  by (simp add: total_duration_def)

text \<open>
  C4. With the ping-pong loop the offset factor gets exactly three keyframes, in this
  order: the start factor at the start frame, the end factor one duration later and the
  start factor again two durations later. From factor 0.0 to 1.0 over 30 frames the
  points, counted from the start frame, are (0, 0.0), (30, 1.0), (60, 0.0).
\<close>

theorem ping_pong_three_points:
  "relative_to sf (offset_factor_keyframes sf d s e
       (st\<lparr>loop_animation := True, loop_type := PING_PONG\<rparr>))
     = [(0, s), (d, e), (2 * d, s)] \<and>
   relative_to sf (offset_factor_keyframes sf 30 0 1
       (st\<lparr>loop_animation := True, loop_type := PING_PONG\<rparr>))
     = [(0, 0), (30, 1), (60, 0)]"
  by (simp add: relative_to_def offset_factor_keyframes_def create_ping_pong_animation_def)

section \<open>The offset loop\<close>

lemma offset_step_nonneg:
  assumes "0 \<le> i" "0 \<le> off"
  shows "0 \<le> fmul (float_of_int i) off"
  using assms by (intro fmul_nonneg float_of_int_nonneg)

lemma apply_animation_start_frame: "1 + py_int (fmul 0 (float_of_int d)) = 1"
  by (simp add: fmul_zero_left py_int_def)

lemma reverse_offset_keys:
  assumes "0 \<le> off"
  shows "relative_to 1 (apply_animation 30 0
      \<lparr>speed_factor = 1, reverse_direction = True, loop_animation = True,
       loop_type = OFFSET, loop_offset = off\<rparr>)
     = [(0, 1), (30, 1), (60, 1), (90, 1)]"
proof -
  have "clamp01 (fadd 1 (fmul (float_of_int i) off)) = 1" if "0 \<le> i" for i
    using that assms by (intro clamp01_above_one offset_step_nonneg)
  then show ?thesis
    by (simp add: relative_to_def apply_animation_def apply_animation_start_frame
        offset_factor_keyframes_def create_offset_animation_def Let_def)
qed

lemma forward_offset_keys:
  assumes "0 \<le> off"
  shows "relative_to 1 (apply_animation 30 0
      \<lparr>speed_factor = 1, reverse_direction = False, loop_animation = True,
       loop_type = OFFSET, loop_offset = off\<rparr>)
     = [(0, 0), (30, 1), (60, 1), (90, 1)]"
proof -
  have "clamp01 (fadd 1 (fmul (float_of_int i) off)) = 1" if "0 \<le> i" for i
    using that assms by (intro clamp01_above_one offset_step_nonneg)
  then show ?thesis
    by (simp add: relative_to_def apply_animation_def apply_animation_start_frame
        offset_factor_keyframes_def create_offset_animation_def Let_def)
qed

lemma spec_first_offset_point:
  "clamp01 (fadd 0 (fmul (float_of_int 1) (rnd (1 / 10))))
     = 3602879701896397 / 36028797018963968"
proof -
  have "fmul (float_of_int 1) (rnd (1 / 10)) = rnd (1 / 10)"
    by (simp add: fmul_def float_of_int_1 rnd_idem del: divide_divide_eq_left)
  then have "fadd 0 (fmul (float_of_int 1) (rnd (1 / 10))) = rnd (1 / 10)"
    by (simp add: fadd_def rnd_idem)
  then show ?thesis by (simp only: lit_01) (simp add: clamp01_def)
qed

text \<open>
  C5 (as stated). The claim derives every factor of the offset loop from the end factor,
  whatever the direction. With the direction reversed (start factor 1.0, end factor 0.0)
  and an offset of 0.1 per cycle the code adds the offset to the start factor: the three
  cycle keyframes carry 1.0, where the claim's formula gives 0.1 for the first cycle.
\<close>

theorem offset_from_end_factor_counterexample:
  "relative_to 1 (apply_animation 30 0
      \<lparr>speed_factor = 1, reverse_direction = True, loop_animation = True,
       loop_type = OFFSET, loop_offset = rnd (1 / 10)\<rparr>)
     = [(0, 1), (30, 1), (60, 1), (90, 1)] \<and>
   spec_offset_points 1 0 30 (rnd (1 / 10)) ! 1 = (30, 3602879701896397 / 36028797018963968)"
proof -
  have "(0::rat) \<le> rnd (1 / 10)" by (rule rnd_nonneg) simp
  then have "relative_to 1 (apply_animation 30 0
      \<lparr>speed_factor = 1, reverse_direction = True, loop_animation = True,
       loop_type = OFFSET, loop_offset = rnd (1 / 10)\<rparr>)
     = [(0, 1), (30, 1), (60, 1), (90, 1)]"
    by (rule reverse_offset_keys)
  moreover have "spec_offset_points 1 0 30 (rnd (1 / 10)) ! 1
      = (30, 3602879701896397 / 36028797018963968)"
    unfolding spec_offset_points_def by (simp only: list.map nth_Cons_Suc nth_Cons_0
        One_nat_def spec_first_offset_point) simp
  ultimately show ?thesis by (simp only: simp_thms)
qed

text \<open>
  C5 (amended). With the offset loop the offset factor gets the start factor at the
  start frame and then, for each cycle \<open>i\<close> in 1..3, the keyframe
  \<open>(i * d, clamp01 (b + i * o))\<close> counted from the start frame, where \<open>o\<close> is the offset
  per cycle and the base \<open>b\<close> is the end factor when the direction is not reversed and
  the start factor when it is.
\<close>

theorem offset_points_by_direction:
  "relative_to sf (offset_factor_keyframes sf d s e
       (st\<lparr>loop_animation := True, loop_type := OFFSET\<rparr>))
     = (0, s) # map (\<lambda>i. (i * d, clamp01 (fadd (if reverse_direction st then s else e)
                                        (fmul (float_of_int i) (loop_offset st)))))
                  [1, 2, 3]"
  by (simp add: relative_to_def offset_factor_keyframes_def create_offset_animation_def Let_def)

section \<open>Clamping of the offset factor\<close>

text \<open>
  C8. For start and end factors within [0, 1], every offset-factor keyframe carries a
  factor within [0, 1], whatever the loop settings and the offset per cycle: \<open>clamp01\<close>
  maps every sum into [0, 1] and the function has no error result. From 0.0 to 1.0 over
  30 frames with an offset of 0.5 per cycle, the three cycle keyframes carry exactly 1.0.
\<close>

theorem factors_within_unit_interval:
  assumes "0 \<le> s" "s \<le> 1" "0 \<le> e" "e \<le> 1"
  shows "(\<forall>(frame, x) \<in> set (offset_factor_keyframes sf d s e st). 0 \<le> x \<and> x \<le> 1) \<and>
         (\<forall>x. 0 \<le> clamp01 x \<and> clamp01 x \<le> 1) \<and>
         relative_to 1 (apply_animation 30 0
             \<lparr>speed_factor = 1, reverse_direction = False, loop_animation = True,
              loop_type = OFFSET, loop_offset = rnd (5 / 10)\<rparr>)
           = [(0, 0), (30, 1), (60, 1), (90, 1)]"
proof -
  have "\<forall>(frame, x) \<in> set (offset_factor_keyframes sf d s e st). 0 \<le> x \<and> x \<le> 1"
    using assms clamp01_range
    by (auto simp: offset_factor_keyframes_def create_ping_pong_animation_def
        create_offset_animation_def create_repeat_animation_def Let_def)
  moreover have "(0::rat) \<le> rnd (5 / 10)" by (rule rnd_nonneg) simp
  then have "relative_to 1 (apply_animation 30 0
             \<lparr>speed_factor = 1, reverse_direction = False, loop_animation = True,
              loop_type = OFFSET, loop_offset = rnd (5 / 10)\<rparr>)
           = [(0, 0), (30, 1), (60, 1), (90, 1)]"
    by (rule forward_offset_keys)
  ultimately show ?thesis
    using clamp01_range by (simp only: simp_thms)
qed

theorem factors_within_unit_interval_witness:
  "(0::rat) \<le> 0 \<and> (0::rat) \<le> 1 \<and> (1::rat) \<le> 1 \<and>
   list_all (\<lambda>(frame, x). 0 \<le> x \<and> x \<le> 1)
     (offset_factor_keyframes 1 30 0 1
       \<lparr>speed_factor = 1, reverse_direction = False, loop_animation = True,
        loop_type = OFFSET, loop_offset = 3\<rparr>)"
  using factors_within_unit_interval [of 0 1 1 30
        "\<lparr>speed_factor = 1, reverse_direction = False, loop_animation = True,
          loop_type = OFFSET, loop_offset = 3\<rparr>"]
  by (simp add: list_all_iff)

section \<open>Staggered copies\<close>

lemma concat_map_filter_if:
  "concat (map (\<lambda>(t, p). if P t then f t p else []) ks)
     = concat (map (\<lambda>(t, p). f t p) (filter (\<lambda>(t, p). P t) ks))"
  by (induction ks) auto

lemma delay_first_copy: "fmul delay (float_of_int (int 0)) = 0"
  by (simp add: fmul_zero_right)

lemma delay_second_copy: "fmul (rnd (2 / 10)) (float_of_int (int 1)) = rnd (2 / 10)"
  by (simp add: fmul_def float_of_int_1 rnd_idem del: divide_divide_eq_left)

lemma shift_08_copy0: "fadd (rnd (8 / 10)) 0 = rnd (8 / 10)"
  by (rule fadd_zero_right) (rule is_double_rnd)

lemma shift_09_copy0: "fadd (rnd (9 / 10)) 0 = rnd (9 / 10)"
  by (rule fadd_zero_right) (rule is_double_rnd)

lemma shift_08_copy1: "fadd (rnd (8 / 10)) (rnd (2 / 10)) = 1"
  by (simp only: lit_08 lit_02 add_08_02)

lemma shift_09_copy1: "fadd (rnd (9 / 10)) (rnd (2 / 10)) = 2476979795053773 / 2251799813685248"
  by (simp only: lit_09 lit_02 add_09_02)

lemma frame_08: "py_int (fmul (float_of_int 30) (rnd (8 / 10))) = 24"
  by (simp only: float_of_int_30 lit_08 mul_30_08) (simp add: py_int_def)

lemma frame_09: "py_int (fmul (float_of_int 30) (rnd (9 / 10))) = 27"
  by (simp only: float_of_int_30 lit_09 mul_30_09) (simp add: py_int_def)

lemma frame_1: "py_int (fmul (float_of_int 30) 1) = 30"
  by (simp only: float_of_int_30 mul_30_1) (simp add: py_int_def)

lemma stagger_example_copy0:
  "stagger_copy (\<lambda>frame p. [(frame, p)]) 1 30 (rnd (2 / 10))
       [(rnd (8 / 10), 1 :: nat), (rnd (9 / 10), 2)] 0 = [(25, 1), (28, 2)]"
proof -
  have "rnd (8 / 10) \<le> 1" "rnd (9 / 10) \<le> 1" by (rule rnd_le_one, simp)+
  then show ?thesis
    unfolding stagger_copy_def Let_def
    by (simp only: delay_first_copy list.map prod.case shift_08_copy0 shift_09_copy0
        frame_08 frame_09 if_True) simp
qed

lemma stagger_example_copy1:
  "stagger_copy (\<lambda>frame p. [(frame, p)]) 1 30 (rnd (2 / 10))
       [(rnd (8 / 10), 1 :: nat), (rnd (9 / 10), 2)] 1 = [(31, 1)]"
  unfolding stagger_copy_def Let_def
  by (simp only: delay_second_copy list.map prod.case shift_08_copy1 shift_09_copy1 frame_1)
     simp

lemma range_three: "[0..<3] = [0, 1, 2]"
  by (simp add: upt_rec)

lemma stagger_copy_filter:
  "stagger_copy emit sf d delay ks i =
     concat (map (\<lambda>(t, p). emit (sf + py_int (fmul (float_of_int d)
                                   (fadd t (fmul delay (float_of_int (int i)))))) p)
               (filter (\<lambda>(t, p). fadd t (fmul delay (float_of_int (int i))) \<le> 1) ks))"
  unfolding stagger_copy_def Let_def by (rule concat_map_filter_if)

lemma stagger_copy_length:
  "length (stagger_copy (emit_scale_loc_rot radians obj) sf d delay ks i)
     = 3 * length (filter (\<lambda>(t, p). fadd t (fmul delay (float_of_int (int i))) \<le> 1) ks)"
  unfolding stagger_copy_filter
  by (induction ks) (auto simp: emit_scale_loc_rot_def Let_def split: prod.splits)

lemma delay_third_copy: "fmul (rnd (2 / 10)) (float_of_int (int 2)) = rnd (4 / 10)"
proof -
  have "float_of_int (int 2) = 2" using float_of_int_exact [of 2] by simp
  moreover have "rnd (2 / 10) * 2 = rnd (4 / 10)" by (simp only: lit_02 lit_04)
  ultimately show ?thesis by (simp only: fmul_def rnd_idem)
qed

lemma fadd_le_one: "x + y \<le> 1 \<Longrightarrow> fadd x y \<le> 1"
  unfolding fadd_def by (rule rnd_le_one)

lemma fadd_gt_one:
  assumes "1 + 1 / 2 ^ 52 \<le> x + y"
  shows "\<not> fadd x y \<le> 1"
proof -
  have "rnd (of_int (2 ^ 52 + 1) * 2 powi (- 52)) = of_int (2 ^ 52 + 1) * 2 powi (- 52)"
    by (rule rnd_exact) simp_all
  then have "rnd (1 + 1 / 2 ^ 52) = 1 + 1 / 2 ^ 52" by (simp add: power_int_minus_divide)
  moreover have "rnd (1 + 1 / 2 ^ 52) \<le> rnd (x + y)" using assms by (rule rnd_mono)
  ultimately have "1 + 1 / 2 ^ 52 \<le> fadd x y" by (simp only: fadd_def)
  then show ?thesis by simp
qed

lemma lit_03_le: "rnd (3 / 10) \<le> 1 / 2"
  using rnd_mono [of "3 / 10" "5 / 10"] by (simp only: lit_05)

lemma stagger_table_shifts:
  "fadd (rnd 0) 0 \<le> 1" "fadd (rnd (3 / 10)) 0 \<le> 1" "fadd (rnd (5 / 10)) 0 \<le> 1"
  "fadd (rnd (7 / 10)) 0 \<le> 1" "fadd (rnd 1) 0 \<le> 1"
  "fadd (rnd 0) (rnd (2 / 10)) \<le> 1" "fadd (rnd (3 / 10)) (rnd (2 / 10)) \<le> 1"
  "fadd (rnd (5 / 10)) (rnd (2 / 10)) \<le> 1" "fadd (rnd (7 / 10)) (rnd (2 / 10)) \<le> 1"
  "\<not> fadd (rnd 1) (rnd (2 / 10)) \<le> 1"
  "fadd (rnd 0) (rnd (4 / 10)) \<le> 1" "fadd (rnd (3 / 10)) (rnd (4 / 10)) \<le> 1"
  "fadd (rnd (5 / 10)) (rnd (4 / 10)) \<le> 1"
  "\<not> fadd (rnd (7 / 10)) (rnd (4 / 10)) \<le> 1" "\<not> fadd (rnd 1) (rnd (4 / 10)) \<le> 1"
proof -
  note vals = rnd_zero rnd_one lit_02 lit_04 lit_05 lit_07
  show "fadd (rnd 0) 0 \<le> 1" "fadd (rnd (5 / 10)) 0 \<le> 1"
    "fadd (rnd (7 / 10)) 0 \<le> 1" "fadd (rnd 1) 0 \<le> 1"
    "fadd (rnd 0) (rnd (2 / 10)) \<le> 1" "fadd (rnd (5 / 10)) (rnd (2 / 10)) \<le> 1"
    "fadd (rnd (7 / 10)) (rnd (2 / 10)) \<le> 1"
    "fadd (rnd 0) (rnd (4 / 10)) \<le> 1" "fadd (rnd (5 / 10)) (rnd (4 / 10)) \<le> 1"
    by (rule fadd_le_one; simp only: vals; simp)+
  have a: "rnd (3 / 10) + 0 \<le> 1" "rnd (3 / 10) + rnd (2 / 10) \<le> 1"
    "rnd (3 / 10) + rnd (4 / 10) \<le> 1"
    using lit_03_le unfolding lit_02 lit_04 by linarith+
  show "fadd (rnd (3 / 10)) 0 \<le> 1" using a(1) by (rule fadd_le_one)
  show "fadd (rnd (3 / 10)) (rnd (2 / 10)) \<le> 1" using a(2) by (rule fadd_le_one)
  show "fadd (rnd (3 / 10)) (rnd (4 / 10)) \<le> 1" using a(3) by (rule fadd_le_one)
  show "\<not> fadd (rnd 1) (rnd (2 / 10)) \<le> 1" "\<not> fadd (rnd (7 / 10)) (rnd (4 / 10)) \<le> 1"
    "\<not> fadd (rnd 1) (rnd (4 / 10)) \<le> 1"
    by (rule fadd_gt_one; simp only: vals; simp)+
qed

lemma apply_stagger_lengths:
  "map length (apply_stagger radians (obj\<lparr>obj_type := ''MESH''\<rparr>) sf ef) = [15, 12, 9]"
proof -
  have "map length (apply_stagger radians (obj\<lparr>obj_type := ''MESH''\<rparr>) sf ef)
      = map (\<lambda>i. 3 * length (filter (\<lambda>(t, p). fadd t (fmul (rnd (2 / 10)) (float_of_int (int i))) \<le> 1)
            stagger_base_keyframes)) [0, 1, 2]"
    by (simp add: apply_stagger_def Let_def range_three stagger_copy_length
        del: divide_divide_eq_left)
  also have "\<dots> = [15, 12, 9]"
    unfolding stagger_base_keyframes_def
    by (simp only: list.map delay_first_copy delay_second_copy delay_third_copy
        filter.simps prod.case stagger_table_shifts if_True if_False) simp
  finally show ?thesis .
qed

text \<open>
  C6. Copy \<open>i\<close> of the staggered animation shifts the time fraction of every row by
  \<open>i\<close> times the delay and emits exactly the rows whose shifted fraction is at most
  1.0, in table order, each at the frame of its shifted fraction. With a delay of 0.2
  and rows at 0.8 and 0.9, copy 0 keeps both rows; copy 1 keeps the row at 0.8, which is
  shifted to exactly 1.0, and drops the row at 0.9, which is shifted above 1.0. With its
  own table, three copies and three keyframes a row, \<open>apply_stagger\<close> inserts 15, 12 and
  9 keyframes on its copies: copy 1 drops the last row and copy 2 the last two.
\<close>

theorem stagger_drop_rule:
  "stagger_copy emit sf d delay ks i =
     concat (map (\<lambda>(t, p). emit (sf + py_int (fmul (float_of_int d)
                                   (fadd t (fmul delay (float_of_int (int i)))))) p)
               (filter (\<lambda>(t, p). fadd t (fmul delay (float_of_int (int i))) \<le> 1) ks)) \<and>
   stagger_copy (\<lambda>frame p. [(frame, p)]) 1 30 (rnd (2 / 10))
       [(rnd (8 / 10), 1 :: nat), (rnd (9 / 10), 2)] 0 = [(25, 1), (28, 2)] \<and>
   stagger_copy (\<lambda>frame p. [(frame, p)]) 1 30 (rnd (2 / 10))
       [(rnd (8 / 10), 1 :: nat), (rnd (9 / 10), 2)] 1 = [(31, 1)] \<and>
   fadd (rnd (8 / 10)) (fmul (rnd (2 / 10)) (float_of_int (int 1))) = 1 \<and>
   1 < fadd (rnd (9 / 10)) (fmul (rnd (2 / 10)) (float_of_int (int 1))) \<and>
   map length (apply_stagger radians (obj\<lparr>obj_type := ''MESH''\<rparr>) sf ef) = [15, 12, 9]"
proof -
  have "fadd (rnd (8 / 10)) (fmul (rnd (2 / 10)) (float_of_int (int 1))) = 1"
    by (simp only: delay_second_copy shift_08_copy1)
  moreover have "1 < fadd (rnd (9 / 10)) (fmul (rnd (2 / 10)) (float_of_int (int 1)))"
    by (simp only: delay_second_copy shift_09_copy1)
  ultimately show ?thesis
    using stagger_copy_filter [of emit sf d delay ks i] stagger_example_copy0
      stagger_example_copy1 apply_stagger_lengths [of radians obj sf ef]
    by (simp only: simp_thms)
qed

lemma stagger_copy_zero:
  assumes "\<forall>(t, p) \<in> set ks. is_double t \<and> t \<le> 1"
  shows "stagger_copy emit sf d delay ks 0 = keyframe_loop emit sf d ks"
proof -
  have "concat (map (\<lambda>(time_pct, p).
            if fadd time_pct 0 \<le> 1
            then emit (sf + py_int (fmul (float_of_int d) (fadd time_pct 0))) p
            else []) ks)
      = concat (map (\<lambda>(time_pct, p). emit (frame_at sf d time_pct) p) ks)"
    using assms
  proof (induction ks)
    case Nil
    then show ?case by simp
  next
    case (Cons k ks)
    obtain t p where k: "k = (t, p)" by (cases k)
    from Cons.prems k have "is_double t" "t \<le> 1" by simp_all
    then have "fadd t 0 = t" "fadd t 0 \<le> 1" by (simp_all add: fadd_zero_right)
    moreover from Cons have "concat (map (\<lambda>(time_pct, p).
            if fadd time_pct 0 \<le> 1
            then emit (sf + py_int (fmul (float_of_int d) (fadd time_pct 0))) p
            else []) ks)
      = concat (map (\<lambda>(time_pct, p). emit (frame_at sf d time_pct) p) ks)"
      by simp
    ultimately show ?case by (simp add: k frame_at_def)
  qed
  moreover have "keyframe_loop emit sf d ks
      = concat (map (\<lambda>(time_pct, p). emit (frame_at sf d time_pct) p) ks)"
    by (simp add: keyframe_loop_def keyframe_frames_def comp_def case_prod_unfold)
  ultimately show ?thesis
    unfolding stagger_copy_def Let_def delay_first_copy by simp
qed

lemma stagger_base_keyframes_within:
  "\<forall>(t, p) \<in> set stagger_base_keyframes. is_double t \<and> t \<le> 1"
  by (simp add: stagger_base_keyframes_def is_double_rnd rnd_le_one)

text \<open>
  C10. For a table whose time fractions are doubles not above 1.0, copy 0 of the
  staggered animation is the plain keyframe loop over the same table and timing: its
  delay is 0, no row is dropped and every row gets the same frame and values. This holds
  for the table of \<open>apply_stagger\<close>, whose first copy is the plain loop with the same
  loop body.
\<close>

theorem stagger_first_copy_is_plain:
  assumes "\<forall>(t, p) \<in> set ks. is_double t \<and> t \<le> 1"
  shows "stagger_copy emit sf d delay ks 0 = keyframe_loop emit sf d ks \<and>
         apply_stagger radians (obj\<lparr>obj_type := ''MESH''\<rparr>) sf ef ! 0
           = keyframe_loop (emit_scale_loc_rot radians (obj\<lparr>obj_type := ''MESH''\<rparr>))
               sf (ef - sf) stagger_base_keyframes"
proof -
  have "apply_stagger radians (obj\<lparr>obj_type := ''MESH''\<rparr>) sf ef ! 0
      = stagger_copy (emit_scale_loc_rot radians (obj\<lparr>obj_type := ''MESH''\<rparr>))
          sf (ef - sf) (rnd (2 / 10)) stagger_base_keyframes 0"
    by (simp add: apply_stagger_def Let_def range_three del: divide_divide_eq_left)
  also have "\<dots> = keyframe_loop (emit_scale_loc_rot radians (obj\<lparr>obj_type := ''MESH''\<rparr>))
               sf (ef - sf) stagger_base_keyframes"
    using stagger_base_keyframes_within by (rule stagger_copy_zero)
  finally have table: "apply_stagger radians (obj\<lparr>obj_type := ''MESH''\<rparr>) sf ef ! 0
           = keyframe_loop (emit_scale_loc_rot radians (obj\<lparr>obj_type := ''MESH''\<rparr>))
               sf (ef - sf) stagger_base_keyframes" .
  have "stagger_copy emit sf d delay ks 0 = keyframe_loop emit sf d ks"
    using assms by (rule stagger_copy_zero)
  with table show ?thesis by (simp only: simp_thms)
qed

theorem stagger_first_copy_is_plain_witness:
  "stagger_copy (\<lambda>frame p. [(frame, p)]) 1 30 (rnd (2 / 10)) [(0, 1 :: nat), (1 / 2, 2), (1, 3)] 0
     = keyframe_loop (\<lambda>frame p. [(frame, p)]) 1 30 [(0, 1), (1 / 2, 2), (1, 3)]"
proof -
  have h: "\<forall>(t, p) \<in> set [(0, 1 :: nat), (1 / 2, 2), (1, 3)]. is_double t \<and> t \<le> 1"
    using lit_05 by (simp add: is_double_def rnd_zero rnd_one)
  show ?thesis
    by (rule stagger_first_copy_is_plain [OF h, THEN conjunct1])
qed

section \<open>Errors\<close>










section \<open>Monotone frames\<close>

lemma frame_at_mono:
  assumes "0 \<le> d" "t1 \<le> t2"
  shows "frame_at sf d t1 \<le> frame_at sf d t2"
proof -
  have "0 \<le> float_of_int d" using assms(1) by (rule float_of_int_nonneg)
  then have "float_of_int d * t1 \<le> float_of_int d * t2"
    using assms(2) by (rule mult_left_mono [rotated])
  then have "rnd (float_of_int d * t1) \<le> rnd (float_of_int d * t2)" by (rule rnd_mono)
  then have "py_int (fmul (float_of_int d) t1) \<le> py_int (fmul (float_of_int d) t2)"
    unfolding fmul_def by (rule py_int_mono)
  then show ?thesis by (simp add: frame_at_def)
qed

lemma keyframe_frames_sorted:
  assumes "sorted (map fst ks)" "0 \<le> d"
  shows "sorted (map fst (keyframe_frames sf d ks))"
proof -
  have "map fst (keyframe_frames sf d ks) = map (frame_at sf d) (map fst ks)"
    by (induction ks) (auto simp: keyframe_frames_def)
  moreover have "sorted (map (frame_at sf d) (map fst ks))"
    using assms(1)
  proof (rule sorted_map_mono)
    show "mono_on (set (map fst ks)) (frame_at sf d)"
      using assms(2) by (auto simp: mono_on_def intro: frame_at_mono)
  qed
  ultimately show ?thesis by simp
qed

lemma doubled_frames_sorted:
  assumes "sorted (map fst fs)"
  shows "sorted (concat (map (\<lambda>(frame, p). [frame, frame]) fs))"
  using assms
proof (induction fs)
  case Nil
  then show ?case by simp
next
  case (Cons a fs)
  obtain f p where a: "a = (f, p)" by (cases a)
  from Cons.prems a have le: "\<forall>x \<in> set (map fst fs). f \<le> x" and tl: "sorted (map fst fs)"
    by simp_all
  have "set (concat (map (\<lambda>(frame, p). [frame, frame]) fs)) = set (map fst fs)"
    by (induction fs) auto
  with le have "\<forall>x \<in> set (concat (map (\<lambda>(frame, p). [frame, frame]) fs)). f \<le> x" by simp
  with Cons.IH [OF tl] show ?case by (simp add: a)
qed

lemma bouncy_reveal_frames:
  "map kf_frame (apply_bouncy_reveal radians obj sf ef)
     = concat (map (\<lambda>(frame, p). [frame, frame])
         (keyframe_frames sf (ef - sf) bouncy_reveal_keyframes))"
proof -
  have "map kf_frame (keyframe_loop (emit_scale_rot radians rot) sf d ks)
      = concat (map (\<lambda>(frame, p). [frame, frame]) (keyframe_frames sf d ks))" for rot d ks
    by (induction ks)
      (auto simp: keyframe_loop_def keyframe_frames_def emit_scale_rot_def kf_frame_def Let_def)
  then show ?thesis by (simp add: apply_bouncy_reveal_def Let_def)
qed

lemma bouncy_reveal_keyframes_sorted: "sorted (map fst bouncy_reveal_keyframes)"
  by (simp add: bouncy_reveal_keyframes_def rnd_mono)

lemma adjusted_duration_nonneg:
  assumes "0 < duration_frames" "0 < speed" "adjusted_duration duration_frames speed = Inr d"
  shows "0 \<le> d"
proof -
  have "0 \<le> float_of_int duration_frames" using assms(1) by (intro float_of_int_nonneg) simp
  then have "0 \<le> rnd (float_of_int duration_frames / speed)"
    using assms(2) by (intro rnd_nonneg) simp
  then have "0 \<le> py_int (rnd (float_of_int duration_frames / speed))"
    by (simp add: py_int_def)
  with assms(2,3) show ?thesis by (simp add: adjusted_duration_def fdiv_def)
qed

text \<open>
  C9. For a duration above 0 and a speed above 0 the effective duration is not negative,
  and for every table whose time fractions are non-decreasing the frames of the keyframe
  loop, in emission order, are non-decreasing (the handlers have no reverse option). In
  particular the frames of the keyframes that \<open>apply_bouncy_reveal\<close> inserts are
  non-decreasing. The preset operator is the case of duration 30.
\<close>

theorem frames_non_decreasing:
  assumes "sorted (map fst ks)" "0 < duration_frames" "0 < speed"
    and "adjusted_duration duration_frames speed = Inr d"
  shows "0 \<le> d \<and>
         sorted (map fst (keyframe_frames sf d ks)) \<and>
         sorted (map kf_frame (apply_bouncy_reveal radians obj sf (sf + d))) \<and>
         actual_duration speed = adjusted_duration 30 speed"
proof -
  have r: "0 \<le> d" using assms(2-4) by (rule adjusted_duration_nonneg)
  have "sorted (map fst (keyframe_frames sf d ks))"
    using assms(1) r by (rule keyframe_frames_sorted)
  moreover have "sorted (map fst (keyframe_frames sf d bouncy_reveal_keyframes))"
    using bouncy_reveal_keyframes_sorted r by (rule keyframe_frames_sorted)
  then have "sorted (map kf_frame (apply_bouncy_reveal radians obj sf (sf + d)))"
    unfolding bouncy_reveal_frames by (simp add: doubled_frames_sorted)
  ultimately show ?thesis using r by (simp add: actual_duration_adjusted)
qed

theorem frames_non_decreasing_witness:
  "sorted (map fst [(0 :: rat, 1 :: nat), (1 / 2, 2), (1, 3)]) \<and> (0 :: int) < 30 \<and>
   (0 :: rat) < 1 \<and> adjusted_duration 30 1 = Inr 30 \<and>
   sorted (map fst (keyframe_frames 1 30 [(0 :: rat, 1 :: nat), (1 / 2, 2), (1, 3)])) \<and>
   sorted (map kf_frame (apply_bouncy_reveal (\<lambda>x. x) \<lparr>obj_type = ''MESH'',
      location = (0, 0, 0), rotation_euler = (0, 0, 0)\<rparr> 1 (1 + 30)))"
proof -
  have s: "sorted (map fst [(0 :: rat, 1 :: nat), (1 / 2, 2), (1, 3)])" by simp
  have p: "(0 :: int) < 30" "(0 :: rat) < 1" by simp_all
  have a: "adjusted_duration 30 1 = Inr 30" using adjusted_duration_one [of 30] by simp
  from frames_non_decreasing [OF s p a, of 1 "\<lambda>x. x"
      "\<lparr>obj_type = ''MESH'', location = (0, 0, 0), rotation_euler = (0, 0, 0)\<rparr>"]
  have "sorted (map fst (keyframe_frames 1 30 [(0 :: rat, 1 :: nat), (1 / 2, 2), (1, 3)]))"
    and "sorted (map kf_frame (apply_bouncy_reveal (\<lambda>x. x) \<lparr>obj_type = ''MESH'',
      location = (0, 0, 0), rotation_euler = (0, 0, 0)\<rparr> 1 (1 + 30)))"
    by simp_all
  with s p a show ?thesis by (simp only: simp_thms)
qed

end
